theory Spec2Isabelle
  imports Complex_Main "HOL-Library.AList" "HOL-Library.Sublist" "HOL-Library.Multiset"
begin

section \<open>Text primitives\<close>

text \<open>
  A Python \<open>str\<close> is modelled as the list of its Unicode code points, so that the Cyrillic
  ranges of the normalisation pattern can be written down and \<open>length\<close> counts what
  Python's \<open>len\<close> counts.  \<open>U\<close> turns an ASCII literal into such a string.
\<close>

type_synonym ustring = "nat list"

abbreviation U :: "string \<Rightarrow> ustring" where
  "U s \<equiv> map of_char s"

text \<open>The code points for which \<open>str.isspace\<close> holds: what \<open>split()\<close>, \<open>strip()\<close> and
  \<open>rstrip()\<close> without arguments treat as whitespace.\<close>

definition is_space :: "nat \<Rightarrow> bool" where
  "is_space c \<longleftrightarrow>
     (9 \<le> c \<and> c \<le> 13) \<or> (28 \<le> c \<and> c \<le> 32) \<or> c = 133 \<or> c = 160 \<or> c = 5760 \<or>
     (8192 \<le> c \<and> c \<le> 8202) \<or> c = 8232 \<or> c = 8233 \<or> c = 8239 \<or> c = 8287 \<or> c = 12288"

definition rstrip :: "ustring \<Rightarrow> ustring" where
  "rstrip s = rev (dropWhile is_space (rev s))"

definition strip :: "ustring \<Rightarrow> ustring" where
  "strip s = rstrip (dropWhile is_space s)"

text \<open>\<open>" ".join(tokens)\<close>\<close>

fun join :: "ustring list \<Rightarrow> ustring" where
  "join [] = []"
| "join [t] = t"
| "join (t # ts) = t @ 32 # join ts"

text \<open>\<open>text.split()\<close>: the maximal runs of non-whitespace characters, in order; \<open>w\<close> is the
  word being read.\<close>

fun split_from :: "ustring \<Rightarrow> ustring \<Rightarrow> ustring list" where
  "split_from [] w = (if w = [] then [] else [w])"
| "split_from (c # cs) w =
     (if is_space c then (if w = [] then split_from cs [] else w # split_from cs [])
      else split_from cs (w @ [c]))"

definition split :: "ustring \<Rightarrow> ustring list" where
  "split s = split_from s []"

text \<open>\<open>str.splitlines()\<close>: a line ends at a line boundary (\<open>\r\n\<close> counts once); there is
  no empty last line.\<close>

definition is_linebreak :: "nat \<Rightarrow> bool" where
  "is_linebreak c \<longleftrightarrow>
     (10 \<le> c \<and> c \<le> 13) \<or> (28 \<le> c \<and> c \<le> 30) \<or> c = 133 \<or> c = 8232 \<or> c = 8233"

fun splitlines_from :: "ustring \<Rightarrow> ustring \<Rightarrow> ustring list" where
  "splitlines_from [] cur = (if cur = [] then [] else [cur])"
| "splitlines_from [c] cur = (if is_linebreak c then [cur] else [cur @ [c]])"
| "splitlines_from (c # d # cs) cur =
     (if c = 13 \<and> d = 10 then cur # splitlines_from cs []
      else if is_linebreak c then cur # splitlines_from (d # cs) []
      else splitlines_from (d # cs) (cur @ [c]))"

definition splitlines :: "ustring \<Rightarrow> ustring list" where
  "splitlines s = splitlines_from s []"

text \<open>\<open>xs[:k]\<close> for a Python int \<open>k\<close>: a negative \<open>k\<close> counts from the end.\<close>

definition slice_to :: "int \<Rightarrow> 'a list \<Rightarrow> 'a list" where
  "slice_to k xs = (if 0 \<le> k then take (nat k) xs else take (nat (int (length xs) + k)) xs)"

text \<open>\<open>sorted(xs, key=..., reverse=True)\<close> on scores: descending, and stable (elements with
  equal keys keep their order), which is the stable ascending sort on the negated key.\<close>

definition sorted_desc :: "('a \<Rightarrow> real) \<Rightarrow> 'a list \<Rightarrow> 'a list" where
  "sorted_desc key xs = sort_key (\<lambda>x. - key x) xs"

section \<open>The libraries and the file system\<close>

text \<open>
  What the program calls and does not define is a parameter of the model, collected in one
  record: BeautifulSoup's \<open>get_text\<close>, \<open>str.lower\<close>, NLTK's stopword lists (\<open>None\<close>: the
  corpus cannot be loaded even after the download) and Porter stemmer, the Russian stemmer
  of \<open>stemmers.porter_ru\<close>, scikit-learn's \<open>cosine_similarity\<close> of a query row and a
  corpus row, and of a path its \<open>suffix\<close>, its text (\<open>read_text\<close>) and its DOCX paragraphs
  (\<open>None\<close>: the file cannot be read or parsed, and the call raises).
\<close>

datatype error = FileNotFoundError | LookupError | FileError

record ('p, 'v) env =
  get_text :: "ustring \<Rightarrow> ustring"
  lower :: "ustring \<Rightarrow> ustring"
  stopwords_words :: "string \<Rightarrow> ustring list option"
  porter_stem :: "ustring \<Rightarrow> ustring"
  russian_porter_stem :: "ustring \<Rightarrow> ustring"
  cosine_similarity :: "'v \<Rightarrow> 'v \<Rightarrow> real"
  suffix :: "'p \<Rightarrow> ustring"
  read_text :: "'p \<Rightarrow> ustring option"
  docx_paragraphs :: "'p \<Rightarrow> ustring list option"

section \<open>text_pipeline.py\<close>

text \<open>
  The characters the pattern \<open>[^a-z0-9\<dots>']+\<close> leaves in place: Latin letters, digits,
  the Cyrillic letters U+0430 to U+044F and U+0451, and the apostrophe; the pattern ignores
  case, so the capitals count too.  (The few other code points that Unicode case folding
  identifies with one of these letters are left out.)
\<close>

definition word_char :: "nat \<Rightarrow> bool" where
  "word_char c \<longleftrightarrow>
     (97 \<le> c \<and> c \<le> 122) \<or> (65 \<le> c \<and> c \<le> 90) \<or> (48 \<le> c \<and> c \<le> 57) \<or>
     (1072 \<le> c \<and> c \<le> 1103) \<or> (1040 \<le> c \<and> c \<le> 1071) \<or> c = 1105 \<or> c = 1025 \<or> c = 39"

text \<open>\<open>_NON_ALPHANUMERIC_RE.sub(" ", s)\<close>: every maximal run of other characters becomes
  one space.  The flag says that the scan is inside such a run, whose space is already out.\<close>

fun sub_from :: "bool \<Rightarrow> ustring \<Rightarrow> ustring" where
  "sub_from in_run [] = []"
| "sub_from in_run (c # cs) =
     (if word_char c then c # sub_from False cs
      else if in_run then sub_from True cs
      else 32 # sub_from True cs)"

definition sub_non_alphanumeric :: "ustring \<Rightarrow> ustring" where
  "sub_non_alphanumeric s = sub_from False s"

record text_pipeline =
  language :: string
  use_stemming :: bool
  remove_stopwords :: bool
  stopword_set :: "ustring set"
  stemmer :: "(ustring \<Rightarrow> ustring) option"




definition normalize_text :: "('p, 'v) env \<Rightarrow> ustring \<Rightarrow> ustring" where
  "normalize_text E t = sub_non_alphanumeric (lower E (get_text E t))"

definition tokenize :: "ustring \<Rightarrow> ustring list" where
  "tokenize t = filter (\<lambda>token. token \<noteq> []) (split t)"

definition filter_stopwords :: "text_pipeline \<Rightarrow> ustring list \<Rightarrow> ustring list" where
  "filter_stopwords self toks =
     (if stopword_set self = {} then toks
      else filter (\<lambda>token. token \<notin> stopword_set self) toks)"

definition stem_tokens :: "text_pipeline \<Rightarrow> ustring list \<Rightarrow> ustring list" where
  "stem_tokens self toks = (case stemmer self of None \<Rightarrow> toks | Some f \<Rightarrow> map f toks)"

definition transform :: "('p, 'v) env \<Rightarrow> text_pipeline \<Rightarrow> ustring \<Rightarrow> ustring list" where
  "transform E self t =
     stem_tokens self (filter_stopwords self (tokenize (normalize_text E t)))"

section \<open>documents.py\<close>

record ('p, 'm) document =
  path :: 'p
  "text" :: ustring
  metadata :: 'm
  tokens :: "ustring list"

section \<open>indexing.py\<close>

text \<open>
  \<open>TfidfIndexer\<close>.  The hashing vectorizer is a library object: \<open>vectorizer\<close> is what its
  \<open>transform\<close> makes of one text (a row; it has no state, so each row depends on its text
  only).  \<open>matrix\<close> is \<open>None\<close> or the list of rows stacked so far.
\<close>

record ('p, 'm, 'v) tfidf_indexer =
  vectorizer :: "ustring \<Rightarrow> 'v"
  matrix :: "'v list option"
  doc_index :: "('p, 'm) document list"

definition TfidfIndexer :: "(ustring \<Rightarrow> 'v) \<Rightarrow> ('p, 'm, 'v) tfidf_indexer" where
  "TfidfIndexer vec = \<lparr>vectorizer = vec, matrix = None, doc_index = []\<rparr>"

definition partial_fit ::
  "('p, 'm, 'v) tfidf_indexer \<Rightarrow> ('p, 'm) document list \<Rightarrow> ('p, 'm, 'v) tfidf_indexer" where
  "partial_fit self docs_chunk =
     (let token_texts = map (\<lambda>d. join (tokens d)) (filter (\<lambda>d. tokens d \<noteq> []) docs_chunk) in
      if token_texts = [] then self
      else
        let rows = map (vectorizer self) token_texts in
        self\<lparr>matrix := (case matrix self of None \<Rightarrow> Some rows | Some m \<Rightarrow> Some (m @ rows)),
             doc_index := doc_index self @ docs_chunk\<rparr>)"

text \<open>The number of rows of the corpus matrix (none before the first row is stored).\<close>

definition row_count :: "('p, 'm, 'v) tfidf_indexer \<Rightarrow> nat" where
  "row_count self = (case matrix self of None \<Rightarrow> 0 | Some m \<Rightarrow> length m)"

text \<open>
  \<open>query\<close>: the documents zipped with the similarities of the rows (zip stops at the shorter
  of the two), sorted by descending score, then cut to \<open>top_k\<close> unless it is \<open>None\<close>.
\<close>

definition query ::
  "('p, 'v) env \<Rightarrow> ('p, 'm, 'v) tfidf_indexer \<Rightarrow> ustring list \<Rightarrow> int option \<Rightarrow>
     (('p, 'm) document \<times> real) list" where
  "query E self toks top_k =
     (case matrix self of
        None \<Rightarrow> []
      | Some m \<Rightarrow>
          if doc_index self = [] then []
          else
            let query_text = join toks;
                query_vector = vectorizer self query_text;
                similarities = map (cosine_similarity E query_vector) m;
                ranked = sorted_desc snd (zip (doc_index self) similarities)
            in (case top_k of
                  None \<Rightarrow> ranked
                | Some k \<Rightarrow> if int (length ranked) \<le> k then ranked else slice_to k ranked))"

text \<open>A call \<open>query(tokens)\<close> that leaves \<open>top_k\<close> out takes the default of the signature,
  \<open>top_k = 5\<close>.\<close>

definition query_default ::
  "('p, 'v) env \<Rightarrow> ('p, 'm, 'v) tfidf_indexer \<Rightarrow> ustring list \<Rightarrow>
     (('p, 'm) document \<times> real) list" where
  "query_default E self toks = query E self toks (Some 5)"

section \<open>source_finder.py\<close>

record 'p source_match =
  sm_path :: 'p
  sm_score :: real

record 'p source_position =
  sp_path :: 'p
  sp_index :: nat
  sp_snippet :: ustring
  sp_score :: real
  sp_label :: string

text \<open>
  \<open>SourceFinder\<close>.  The loader is the stream of batches its \<open>load\<close> yields, with the
  exception that ends the stream, if any.
\<close>

record ('p, 'm, 'v) source_finder =
  loader :: "('p, 'm) document list list \<times> error option"
  pipeline :: text_pipeline
  indexer :: "('p, 'm, 'v) tfidf_indexer"

definition process_document ::
  "('p, 'v) env \<Rightarrow> ('p, 'm, 'v) source_finder \<Rightarrow> ('p, 'm) document \<Rightarrow> ('p, 'm) document" where
  "process_document E self d = d\<lparr>tokens := transform E (pipeline self) (text d)\<rparr>"

text \<open>\<open>build_index\<close> returns the finder with its index filled, and the exception that
  stopped the loader, if one did.\<close>

definition build_index ::
  "('p, 'v) env \<Rightarrow> ('p, 'm, 'v) source_finder \<Rightarrow> ('p, 'm, 'v) source_finder \<times> error option" where
  "build_index E self =
     (self\<lparr>indexer :=
         foldl (\<lambda>ix docs_chunk. partial_fit ix (map (process_document E self) docs_chunk))
           (indexer self) (fst (loader self))\<rparr>,
      snd (loader self))"

text \<open>The dictionary \<open>best\<close> keeps its keys in insertion order, and assigning to a key it
  has leaves the key where it is: an association list under \<open>AList.update\<close>.\<close>

definition best_get :: "('p \<times> real) list \<Rightarrow> 'p \<Rightarrow> real" where
  "best_get best p = (case map_of best p of None \<Rightarrow> 0 | Some s \<Rightarrow> s)"

fun aggregate_step :: "('p \<times> real) list \<Rightarrow> ('p, 'm) document \<times> real \<Rightarrow> ('p \<times> real) list" where
  "aggregate_step best (doc, score) =
     (if score \<le> 0 then best
      else if best_get best (path doc) < score then AList.update (path doc) score best
      else best)"

definition aggregate_best_scores :: "(('p, 'm) document \<times> real) list \<Rightarrow> ('p \<times> real) list" where
  "aggregate_best_scores scored_documents = foldl aggregate_step [] scored_documents"

definition find_sources ::
  "('p, 'v) env \<Rightarrow> ('p, 'm, 'v) source_finder \<Rightarrow> ustring \<Rightarrow> int \<Rightarrow> 'p source_match list" where
  "find_sources E self query_text top_k =
     (let toks = transform E (pipeline self) query_text in
      if toks = [] then []
      else
        let scored_documents = query E (indexer self) toks None;
            best_scores = aggregate_best_scores scored_documents;
            ranked_paths = slice_to top_k (sorted_desc snd best_scores)
        in map (\<lambda>(p, s). \<lparr>sm_path = p, sm_score = s\<rparr>) ranked_paths)"

definition matches_query ::
  "('p, 'v) env \<Rightarrow> ('p, 'm, 'v) source_finder \<Rightarrow> ustring \<Rightarrow> ustring set \<Rightarrow> bool" where
  "matches_query E self t query_tokens \<longleftrightarrow>
     set (transform E (pipeline self) t) \<inter> query_tokens \<noteq> {}"

definition truncate :: "ustring \<Rightarrow> int \<Rightarrow> ustring" where
  "truncate t limit =
     (if int (length t) \<le> limit then t else rstrip (slice_to limit t) @ U ''...'')"

text \<open>
  The loop of \<open>_scan_docx\<close> and \<open>_scan_text\<close> over the numbered units of one file:
  \<open>positions\<close> is the list built so far, and the loop breaks once it holds
  \<open>max_positions_per_file\<close> entries.
\<close>

fun scan_units ::
  "('p, 'v) env \<Rightarrow> ('p, 'm, 'v) source_finder \<Rightarrow> string \<Rightarrow> 'p source_match \<Rightarrow> ustring set \<Rightarrow>
     int \<Rightarrow> int \<Rightarrow> (nat \<times> ustring) list \<Rightarrow> 'p source_position list \<Rightarrow> 'p source_position list" where
  "scan_units E self lab m query_tokens max_positions_per_file snippet_len [] positions = positions"
| "scan_units E self lab m query_tokens max_positions_per_file snippet_len ((idx, unit) # rest) positions =
     (if max_positions_per_file \<le> int (length positions) then positions
      else
        let snippet = strip unit in
        if snippet = [] then
          scan_units E self lab m query_tokens max_positions_per_file snippet_len rest positions
        else if matches_query E self snippet query_tokens then
          scan_units E self lab m query_tokens max_positions_per_file snippet_len rest
            (positions @ [\<lparr>sp_path = sm_path m, sp_index = idx,
                           sp_snippet = truncate snippet snippet_len,
                           sp_score = sm_score m, sp_label = lab\<rparr>])
        else
          scan_units E self lab m query_tokens max_positions_per_file snippet_len rest positions)"

text \<open>\<open>enumerate(xs, start=1)\<close>\<close>

definition enumerate1 :: "'a list \<Rightarrow> (nat \<times> 'a) list" where
  "enumerate1 xs = zip [1..<Suc (length xs)] xs"

definition scan_docx ::
  "('p, 'v) env \<Rightarrow> ('p, 'm, 'v) source_finder \<Rightarrow> 'p source_match \<Rightarrow> ustring set \<Rightarrow> int \<Rightarrow> int \<Rightarrow>
     error + 'p source_position list" where
  "scan_docx E self m query_tokens max_positions_per_file snippet_len =
     (case docx_paragraphs E (sm_path m) of
        None \<Rightarrow> Inl FileError
      | Some paragraphs \<Rightarrow>
          Inr (scan_units E self ''paragraph'' m query_tokens max_positions_per_file snippet_len
                 (enumerate1 paragraphs) []))"

definition scan_text ::
  "('p, 'v) env \<Rightarrow> ('p, 'm, 'v) source_finder \<Rightarrow> 'p source_match \<Rightarrow> ustring set \<Rightarrow> int \<Rightarrow> int \<Rightarrow>
     error + 'p source_position list" where
  "scan_text E self m query_tokens max_positions_per_file snippet_len =
     (case read_text E (sm_path m) of
        None \<Rightarrow> Inl FileError
      | Some content \<Rightarrow>
          Inr (scan_units E self ''line'' m query_tokens max_positions_per_file snippet_len
                 (enumerate1 (splitlines content)) []))"

text \<open>The loop of \<open>locate_source_positions\<close> over the matches; an exception of a scan ends it.\<close>

fun scan_matches ::
  "('p, 'v) env \<Rightarrow> ('p, 'm, 'v) source_finder \<Rightarrow> ustring set \<Rightarrow> int \<Rightarrow> int \<Rightarrow>
     'p source_match list \<Rightarrow> 'p source_position list \<Rightarrow> error + 'p source_position list" where
  "scan_matches E self query_tokens max_positions_per_file snippet_len [] positions = Inr positions"
| "scan_matches E self query_tokens max_positions_per_file snippet_len (m # ms) positions =
     (case (if lower E (suffix E (sm_path m)) = U ''.docx''
            then scan_docx E self m query_tokens max_positions_per_file snippet_len
            else scan_text E self m query_tokens max_positions_per_file snippet_len) of
        Inl e \<Rightarrow> Inl e
      | Inr found \<Rightarrow>
          scan_matches E self query_tokens max_positions_per_file snippet_len ms (positions @ found))"

definition locate_source_positions ::
  "('p, 'v) env \<Rightarrow> ('p, 'm, 'v) source_finder \<Rightarrow> ustring \<Rightarrow> int \<Rightarrow> int \<Rightarrow> int \<Rightarrow>
     error + 'p source_position list" where
  "locate_source_positions E self query_text top_k max_positions_per_file snippet_len =
     (let matches = find_sources E self query_text top_k in
      if matches = [] then Inr []
      else
        let query_tokens = set (transform E (pipeline self) query_text) in
        scan_matches E self query_tokens max_positions_per_file snippet_len matches [])"

section \<open>A small world for the concrete evaluations\<close>

text \<open>
  Stand-ins for the libraries, on plain lower-case ASCII text: no markup to strip and nothing
  to lower, a vectorizer that keeps the joined tokens, and a similarity that is 1 between
  equal non-empty texts and 0 otherwise (what the hashing vectorizer and the cosine give for
  two one-token texts, equal or distinct, when the tokens do not collide).  No file can be
  read.  The pipeline neither stems nor removes stopwords, and a finder starts with an empty
  index over the batches given.
\<close>

definition exact_env :: "(ustring, ustring) env" where
  "exact_env =
     \<lparr>get_text = (\<lambda>t. t), lower = (\<lambda>t. t), stopwords_words = (\<lambda>name. Some []),
      porter_stem = (\<lambda>t. t), russian_porter_stem = (\<lambda>t. t),
      cosine_similarity = (\<lambda>a b. if a = b \<and> a \<noteq> [] then 1 else 0),
      suffix = (\<lambda>p. dropWhile (\<lambda>c. c \<noteq> 46) p),
      read_text = (\<lambda>p. None),
      docx_paragraphs = (\<lambda>p. None)\<rparr>"

definition plain_pipeline :: text_pipeline where
  "plain_pipeline =
     \<lparr>language = ''en'', use_stemming = False, remove_stopwords = False,
      stopword_set = {}, stemmer = None\<rparr>"

definition doc :: "string \<Rightarrow> string \<Rightarrow> (ustring, unit) document" where
  "doc p t = \<lparr>path = U p, text = U t, metadata = (), tokens = []\<rparr>"

definition finder ::
  "(ustring, unit) document list list \<Rightarrow> (ustring, unit, ustring) source_finder" where
  "finder chunks =
     \<lparr>loader = (chunks, None), pipeline = plain_pipeline, indexer = TfidfIndexer (\<lambda>t. t)\<rparr>"

text \<open>An index of two documents and one of six, each filled by one call of \<open>partial_fit\<close>.\<close>

definition two_docs :: "(ustring, unit, ustring) tfidf_indexer" where
  "two_docs = partial_fit (TfidfIndexer (\<lambda>t. t))
     [(doc ''a.txt'' ''cat'')\<lparr>tokens := [U ''cat'']\<rparr>, (doc ''b.txt'' ''dog'')\<lparr>tokens := [U ''dog'']\<rparr>]"

definition six_docs :: "(ustring, unit, ustring) tfidf_indexer" where
  "six_docs = partial_fit (TfidfIndexer (\<lambda>t. t))
     [(doc ''a.txt'' ''ant'')\<lparr>tokens := [U ''ant'']\<rparr>, (doc ''a.txt'' ''bee'')\<lparr>tokens := [U ''bee'']\<rparr>,
      (doc ''a.txt'' ''cat'')\<lparr>tokens := [U ''cat'']\<rparr>, (doc ''a.txt'' ''dog'')\<lparr>tokens := [U ''dog'']\<rparr>,
      (doc ''a.txt'' ''eel'')\<lparr>tokens := [U ''eel'']\<rparr>, (doc ''a.txt'' ''fox'')\<lparr>tokens := [U ''fox'']\<rparr>]"

text \<open>The same world with one readable file, \<open>a.txt\<close>, of four lines, and a finder whose
  index holds one document of that file.\<close>

definition files_env :: "(ustring, ustring) env" where
  "files_env = exact_env\<lparr>read_text :=
     (\<lambda>p. if p = U ''a.txt'' then Some (U ''cat'' @ [10] @ U ''dog'' @ [10] @ U '' cat cat '' @ [10] @ U ''cat'')
          else None)\<rparr>"

definition cat_finder :: "(ustring, unit, ustring) source_finder" where
  "cat_finder = fst (build_index files_env (finder [[doc ''a.txt'' ''cat'']]))"

text \<open>A finder whose index holds, in this order, a unit of \<open>a.txt\<close>, one of \<open>b.txt\<close> and
  another of \<open>a.txt\<close>.\<close>

definition interleaved_finder :: "(ustring, unit, ustring) source_finder" where
  "interleaved_finder =
     fst (build_index exact_env
       (finder [[doc ''a.txt'' ''cat'', doc ''b.txt'' ''dog'', doc ''a.txt'' ''dog'']]))"






text \<open>The equations that evaluate the model on these inputs.\<close>

lemmas text_eval =
  transform_def stem_tokens_def filter_stopwords_def tokenize_def normalize_text_def
  sub_non_alphanumeric_def word_char_def split_def is_space_def

lemmas index_eval =
  build_index_def process_document_def partial_fit_def TfidfIndexer_def Let_def query_def
  sorted_desc_def slice_to_def

lemmas finder_eval =
  find_sources_def aggregate_best_scores_def best_get_def locate_source_positions_def

lemmas world_eval = exact_env_def plain_pipeline_def doc_def finder_def

lemmas scan_eval =
  scan_text_def scan_docx_def enumerate1_def splitlines_def is_linebreak_def matches_query_def
  strip_def rstrip_def truncate_def files_env_def

section \<open>Auxiliary notions for the statements\<close>

text \<open>The position a scan emits for a unit, and the test that makes it emit one.\<close>

definition unit_position ::
  "string \<Rightarrow> 'p source_match \<Rightarrow> int \<Rightarrow> nat \<times> ustring \<Rightarrow> 'p source_position" where
  "unit_position lab m snippet_len u =
     \<lparr>sp_path = sm_path m, sp_index = fst u, sp_snippet = truncate (strip (snd u)) snippet_len,
      sp_score = sm_score m, sp_label = lab\<rparr>"

definition unit_hit ::
  "('p, 'v) env \<Rightarrow> ('p, 'm, 'v) source_finder \<Rightarrow> ustring set \<Rightarrow> nat \<times> ustring \<Rightarrow> bool" where
  "unit_hit E self query_tokens u \<longleftrightarrow>
     strip (snd u) \<noteq> [] \<and> matches_query E self (strip (snd u)) query_tokens"

text \<open>What the scan of one matched file may return: positions of that file, with strictly
  ascending unit numbers, no more of them than the cap.\<close>

definition file_block :: "int \<Rightarrow> 'p source_match \<Rightarrow> 'p source_position list \<Rightarrow> bool" where
  "file_block mx m found \<longleftrightarrow>
     list_all (\<lambda>p. sp_path p = sm_path m \<and> sp_score p = sm_score m) found \<and>
     sorted_wrt (<) (map sp_index found) \<and>
     int (length found) \<le> mx"


text \<open>The documents of the index, each paired with the similarity of the row at its
  position, in index order: what \<open>query\<close> sorts.\<close>

definition scored_units ::
  "('p, 'v) env \<Rightarrow> ('p, 'm, 'v) tfidf_indexer \<Rightarrow> ustring list \<Rightarrow> (('p, 'm) document \<times> real) list" where
  "scored_units E self toks =
     (case matrix self of
        None \<Rightarrow> []
      | Some m \<Rightarrow> zip (doc_index self) (map (cosine_similarity E (vectorizer self (join toks))) m))"

text \<open>Where, in a list of scored units, the first unit with a given path and score stands
  (the length of the list if there is none).\<close>

definition unit_pos :: "(('p, 'm) document \<times> real) list \<Rightarrow> 'p \<Rightarrow> real \<Rightarrow> nat" where
  "unit_pos units p s = length (takeWhile (\<lambda>u. \<not> (path (fst u) = p \<and> snd u = s)) units)"

definition first_unit :: "(('p, 'm) document \<times> real) list \<Rightarrow> 'p source_match \<Rightarrow> nat" where
  "first_unit units m = unit_pos units (sm_path m) (sm_score m)"

text \<open>What holds of the dictionary \<open>best\<close> after the loop of \<open>_aggregate_best_scores\<close> has
  run over a list of units: over any list, and over one with descending scores.\<close>

definition best_of :: "(('p, 'm) document \<times> real) list \<Rightarrow> ('p \<times> real) list \<Rightarrow> bool" where
  "best_of xs best \<longleftrightarrow>
     distinct (map fst best) \<and>
     list_all (\<lambda>e. 0 < snd e \<and> (\<exists>u \<in> set xs. path (fst u) = fst e \<and> snd u = snd e)) best \<and>
     list_all (\<lambda>u. snd u \<le> 0 \<or> snd u \<le> best_get best (path (fst u))) xs"

definition ranked_best :: "(('p, 'm) document \<times> real) list \<Rightarrow> ('p \<times> real) list \<Rightarrow> bool" where
  "ranked_best xs best \<longleftrightarrow>
     list_all (\<lambda>e. unit_pos xs (fst e) (snd e) < length xs) best \<and>
     list_all (\<lambda>u. snd u \<le> 0 \<or> path (fst u) \<in> fst ` set best) xs \<and>
     sorted_wrt (\<lambda>e e'. unit_pos xs (fst e) (snd e) < unit_pos xs (fst e') (snd e')) best \<and>
     sorted_wrt (\<lambda>e e'. snd e' \<le> snd e) best"

section \<open>Properties of the index\<close>

lemma partial_fit_all_empty:
  assumes "\<forall>d \<in> set docs_chunk. tokens d = []"
  shows "partial_fit self docs_chunk = self"
proof -
  from assms have "filter (\<lambda>d. tokens d \<noteq> []) docs_chunk = []"
    by (simp add: filter_empty_conv)
  then show ?thesis by (simp add: partial_fit_def Let_def)
qed

text \<open>
  C10: a batch in which every document has no tokens leaves the index exactly as it was:
  the matrix, the document list and the vectorizer are those of before the call.
\<close>

theorem partial_fit_empty_batch_frame:
  "(\<forall>d \<in> set docs_chunk. tokens d = []) \<Longrightarrow>
     partial_fit self docs_chunk = self \<and>
     matrix (partial_fit self docs_chunk) = matrix self \<and>
     doc_index (partial_fit self docs_chunk) = doc_index self"
  by (simp add: partial_fit_all_empty)

theorem partial_fit_empty_batch_frame_witness:
  "list_all (\<lambda>d. tokens d = [])
     [\<lparr>path = U ''a.txt'', text = U ''!!!'', metadata = (), tokens = []\<rparr>] \<and>
   partial_fit \<lparr>vectorizer = id, matrix = Some [U ''x''],
       doc_index = [\<lparr>path = U ''b.txt'', text = U ''x'', metadata = (), tokens = [U ''x'']\<rparr>]\<rparr>
     [\<lparr>path = U ''a.txt'', text = U ''!!!'', metadata = (), tokens = []\<rparr>]
   = \<lparr>vectorizer = id, matrix = Some [U ''x''],
       doc_index = [\<lparr>path = U ''b.txt'', text = U ''x'', metadata = (), tokens = [U ''x'']\<rparr>]\<rparr>"
  using partial_fit_empty_batch_frame
    [of "[\<lparr>path = U ''a.txt'', text = U ''!!!'', metadata = (), tokens = []\<rparr>]"
        "\<lparr>vectorizer = id, matrix = Some [U ''x''],
           doc_index = [\<lparr>path = U ''b.txt'', text = U ''x'', metadata = (), tokens = [U ''x'']\<rparr>]\<rparr>"]
  by simp

text \<open>
  C1: one call of \<open>partial_fit\<close> on a fresh index with a batch of two documents, the first
  with a token and the second with none, stores one row and two documents: the document
  without tokens gets no row, yet it is appended to \<open>doc_index\<close> with the rest of the batch.
\<close>

theorem partial_fit_mixed_batch_misaligned:
  "row_count (partial_fit (TfidfIndexer id)
      [\<lparr>path = U ''a.txt'', text = U ''cat'', metadata = (), tokens = [U ''cat'']\<rparr>,
       \<lparr>path = U ''a.txt'', text = U ''!!!'', metadata = (), tokens = []\<rparr>]) = 1 \<and>
   length (doc_index (partial_fit (TfidfIndexer id)
      [\<lparr>path = U ''a.txt'', text = U ''cat'', metadata = (), tokens = [U ''cat'']\<rparr>,
       \<lparr>path = U ''a.txt'', text = U ''!!!'', metadata = (), tokens = []\<rparr>])) = 2"
  by (simp add: partial_fit_def TfidfIndexer_def row_count_def Let_def)

section \<open>Snippets\<close>

lemma rstrip_prefix: "prefix (rstrip s) s"
proof -
  have "rstrip s @ rev (takeWhile is_space (rev s)) =
        rev (takeWhile is_space (rev s) @ dropWhile is_space (rev s))"
    unfolding rstrip_def by (simp only: rev_append)
  also have "\<dots> = s" by simp
  finally show ?thesis by (metis prefixI)
qed

lemma length_rstrip_le: "length (rstrip s) \<le> length s"
  using rstrip_prefix [of s] by (rule prefix_length_le)

text \<open>
  C6, for a limit that is not negative: the snippet of a unit is made from its trimmed
  text.  A trimmed text no longer than \<open>snippet_len\<close> is the snippet, unchanged.  A longer one
  gives its first \<open>snippet_len\<close> characters, without their trailing whitespace, followed by
  the marker \<open>...\<close>; that snippet is at most \<open>snippet_len\<close> plus the marker long, and what
  stands before the marker is a prefix of the trimmed text.
\<close>

theorem truncate_snippet:
  "0 \<le> limit \<Longrightarrow>
     (int (length (strip unit)) \<le> limit \<longrightarrow> truncate (strip unit) limit = strip unit) \<and>
     (limit < int (length (strip unit)) \<longrightarrow>
        truncate (strip unit) limit = rstrip (take (nat limit) (strip unit)) @ U ''...'' \<and>
        int (length (truncate (strip unit) limit)) \<le> limit + int (length (U ''...'')) \<and>
        prefix (rstrip (take (nat limit) (strip unit))) (strip unit))"
proof (intro conjI impI)
  assume "int (length (strip unit)) \<le> limit"
  then show "truncate (strip unit) limit = strip unit" by (simp add: truncate_def)
next
  assume nonneg: "0 \<le> limit" and long: "limit < int (length (strip unit))"
  then show eq: "truncate (strip unit) limit = rstrip (take (nat limit) (strip unit)) @ U ''...''"
    by (simp add: truncate_def slice_to_def)
  have "length (rstrip (take (nat limit) (strip unit))) \<le> nat limit"
    using length_rstrip_le [of "take (nat limit) (strip unit)"] by simp
  with nonneg show "int (length (truncate (strip unit) limit)) \<le> limit + int (length (U ''...''))"
    by (simp add: eq)
  show "prefix (rstrip (take (nat limit) (strip unit))) (strip unit)"
    using rstrip_prefix [of "take (nat limit) (strip unit)"] take_is_prefix [of "nat limit" "strip unit"]
    by (rule prefix_order.trans)
qed

theorem truncate_snippet_witness:
  "truncate (strip (U ''  abc  def  '')) 5 = U ''abc...'' \<and>
   prefix (U ''abc'') (strip (U ''  abc  def  '')) \<and>
   truncate (strip (U '' abc '')) 5 = U ''abc''"
  using truncate_snippet [of 5 "U ''  abc  def  ''"] truncate_snippet [of 5 "U '' abc ''"]
  by (simp add: strip_def rstrip_def is_space_def)

text \<open>
  With the limit \<open>-1\<close> the slice \<open>text[:limit]\<close> drops the last character only: the snippet
  of \<open>abcdef\<close> is \<open>abcde...\<close>, eight characters, more than the limit plus the marker.
\<close>

theorem truncate_negative_limit:
  "truncate (strip (U ''abcdef'')) (- 1) = U ''abcde...'' \<and>
   \<not> int (length (truncate (strip (U ''abcdef'')) (- 1))) \<le> - 1 + int (length (U ''...''))"
  by (simp add: truncate_def slice_to_def strip_def rstrip_def is_space_def)

section \<open>Ranking by \<open>query\<close>\<close>

lemma query_ranked:
  assumes "matrix self = Some m" and "doc_index self \<noteq> []"
  shows "query E self toks None =
           sorted_desc snd (zip (doc_index self)
             (map (cosine_similarity E (vectorizer self (join toks))) m))"
  using assms by (simp add: query_def Let_def)

lemma sorted_desc_descending: "sorted_wrt (\<lambda>a b. key b \<le> key a) (sorted_desc key xs)"
proof -
  have "sorted (map (\<lambda>x. - key x) (sort_key (\<lambda>x. - key x) xs))" by (rule sorted_sort_key)
  then show ?thesis by (simp add: sorted_desc_def sorted_map)
qed

text \<open>
  C2, on an index whose matrix has one row for each entry of \<open>doc_index\<close>: with
  \<open>top_k = None\<close> the result pairs every indexed document with the similarity of its row,
  once each, in descending order of score; with a \<open>top_k\<close> that is not negative it has
  \<open>top_k\<close> entries, or as many as there are documents when those are fewer; and a call
  without \<open>top_k\<close> is a call with \<open>top_k = 5\<close>.
\<close>

theorem query_full_ranking:
  "matrix self = Some m \<Longrightarrow> length m = length (doc_index self) \<Longrightarrow> doc_index self \<noteq> [] \<Longrightarrow>
     mset (query E self toks None) =
       mset (zip (doc_index self) (map (cosine_similarity E (vectorizer self (join toks))) m)) \<and>
     length (query E self toks None) = length (doc_index self) \<and>
     sorted_wrt (\<lambda>a b. snd b \<le> snd a) (query E self toks None) \<and>
     (0 \<le> k \<longrightarrow> length (query E self toks (Some k)) = min (nat k) (length (doc_index self))) \<and>
     length (query_default E self toks) = min 5 (length (doc_index self))"
proof -
  assume m: "matrix self = Some m" and len: "length m = length (doc_index self)"
    and ne: "doc_index self \<noteq> []"
  let ?units = "zip (doc_index self) (map (cosine_similarity E (vectorizer self (join toks))) m)"
  have ranked: "query E self toks None = sorted_desc snd ?units"
    using m ne by (rule query_ranked)
  have all: "mset (query E self toks None) = mset ?units"
    by (simp add: ranked sorted_desc_def)
  have full: "length (query E self toks None) = length (doc_index self)"
    by (simp add: ranked sorted_desc_def len)
  have desc: "sorted_wrt (\<lambda>a b. snd b \<le> snd a) (query E self toks None)"
    unfolding ranked by (rule sorted_desc_descending)
  have cut: "length (query E self toks (Some j)) = min (nat j) (length (doc_index self))"
    if "0 \<le> j" for j
  proof -
    have "query E self toks (Some j) =
          (if int (length (query E self toks None)) \<le> j then query E self toks None
           else slice_to j (query E self toks None))"
      using m ne by (simp add: query_def Let_def)
    with that full show ?thesis by (auto simp: slice_to_def)
  qed
  have "length (query_default E self toks) = min 5 (length (doc_index self))"
    using cut [of 5] by (simp add: query_default_def)
  with all full desc cut [of k] show ?thesis by blast
qed

theorem query_full_ranking_witness:
  "length (query exact_env two_docs [U ''dog''] None) = 2 \<and>
   length (query exact_env two_docs [U ''dog''] (Some 1)) = 1 \<and>
   length (query_default exact_env two_docs [U ''dog'']) = 2"
  using query_full_ranking [of two_docs "[U ''cat'', U ''dog'']" exact_env "[U ''dog'']" 1]
  by (simp add: two_docs_def doc_def partial_fit_def TfidfIndexer_def Let_def)

text \<open>
  On an index of six documents a call without \<open>top_k\<close> returns five pairs, not the full
  ranking.  And with \<open>top_k = -1\<close> on an index of two documents the slice \<open>ranked[:top_k]\<close>
  keeps one entry, which is more than \<open>top_k\<close>.
\<close>

theorem query_default_not_full:
  "length (doc_index six_docs) = 6 \<and> row_count six_docs = 6 \<and>
   length (query_default exact_env six_docs [U ''dog'']) = 5 \<and>
   length (query exact_env two_docs [U ''dog''] (Some (- 1))) = 1"
  by (simp add: six_docs_def two_docs_def query_default_def row_count_def world_eval index_eval)

section \<open>Empty results\<close>






section \<open>Scores of the matches\<close>

text \<open>
  C3: \<open>a.txt\<close> holds the lines \<open>!!!\<close> and \<open>cat\<close>, \<open>b.txt\<close> the line \<open>dog\<close>, and the index is
  built from them, a batch per file.  The line \<open>!!!\<close> has no tokens, so it gets no row but
  stays in \<open>doc_index\<close>, and every later document is paired with the row of its successor.
  For the query \<open>dog\<close> the only match is \<open>a.txt\<close> with score 1, although the query has
  similarity 0 with both units of \<open>a.txt\<close> and similarity 1 with the unit of \<open>b.txt\<close>.
\<close>

theorem find_sources_misattributed:
  "find_sources exact_env
     (fst (build_index exact_env
        (finder [[doc ''a.txt'' ''!!!'', doc ''a.txt'' ''cat''], [doc ''b.txt'' ''dog'']])))
     (U ''dog'') 5
   = [\<lparr>sm_path = U ''a.txt'', sm_score = 1\<rparr>] \<and>
   cosine_similarity exact_env (join (transform exact_env plain_pipeline (U ''dog'')))
     (join (transform exact_env plain_pipeline (U ''!!!''))) = 0 \<and>
   cosine_similarity exact_env (join (transform exact_env plain_pipeline (U ''dog'')))
     (join (transform exact_env plain_pipeline (U ''cat''))) = 0 \<and>
   cosine_similarity exact_env (join (transform exact_env plain_pipeline (U ''dog'')))
     (join (transform exact_env plain_pipeline (U ''dog''))) = 1"
  by (simp add: world_eval text_eval index_eval finder_eval)

section \<open>Positions inside the matched files\<close>

lemma scan_units_closed_form:
  "scan_units E self lab m query_tokens mx snippet_len units positions =
     positions @ take (nat (mx - int (length positions)))
       (map (unit_position lab m snippet_len) (filter (unit_hit E self query_tokens) units))"
proof (induction units arbitrary: positions)
  case Nil
  then show ?case by simp
next
  case (Cons u units)
  obtain idx t where u: "u = (idx, t)" by (cases u)
  let ?rest = "map (unit_position lab m snippet_len) (filter (unit_hit E self query_tokens) units)"
  let ?p = "unit_position lab m snippet_len u"
  show ?case
  proof (cases "mx \<le> int (length positions)")
    case True
    then show ?thesis by (simp add: u)
  next
    case room: False
    show ?thesis
    proof (cases "unit_hit E self query_tokens u")
      case True
      from room obtain k where k: "nat (mx - int (length positions)) = Suc k"
        and k': "nat (mx - int (length (positions @ [?p]))) = k"
        by (cases "nat (mx - int (length positions))") auto
      have "scan_units E self lab m query_tokens mx snippet_len (u # units) positions =
          scan_units E self lab m query_tokens mx snippet_len units (positions @ [?p])"
        using room True by (simp add: u unit_hit_def unit_position_def Let_def)
      also have "\<dots> = (positions @ [?p]) @ take k ?rest"
        unfolding Cons.IH [of "positions @ [?p]"] k' ..
      also have "\<dots> = positions @ take (Suc k) (?p # ?rest)" by simp
      finally show ?thesis using True by (simp only: k filter.simps list.map if_True)
    next
      case False
      with room show ?thesis
        using Cons.IH [of positions] by (auto simp: u unit_hit_def Let_def)
    qed
  qed
qed

lemma enumerate1_ascending: "sorted_wrt (<) (map fst (enumerate1 xs))"
  by (simp add: enumerate1_def del: upt_Suc)

lemma scan_units_block:
  assumes "0 \<le> mx" and "sorted_wrt (<) (map fst units)"
  shows "file_block mx m (scan_units E self lab m query_tokens mx snippet_len units [])"
proof -
  let ?hits = "filter (unit_hit E self query_tokens) units"
  have "sorted_wrt (\<lambda>a b. fst a < fst b) ?hits"
    using assms(2) by (simp add: sorted_wrt_map sorted_wrt_filter)
  then have "sorted_wrt (<) (map sp_index (map (unit_position lab m snippet_len) ?hits))"
    by (simp add: sorted_wrt_map unit_position_def)
  then have "sorted_wrt (<) (map sp_index (take (nat mx) (map (unit_position lab m snippet_len) ?hits)))"
    by (simp only: take_map [symmetric] sorted_wrt_take)
  moreover have "list_all (\<lambda>p. sp_path p = sm_path m \<and> sp_score p = sm_score m)
      (take (nat mx) (map (unit_position lab m snippet_len) ?hits))"
    by (auto simp: list_all_iff unit_position_def dest!: in_set_takeD)
  moreover have "int (length (take (nat mx) (map (unit_position lab m snippet_len) ?hits))) \<le> mx"
    using assms(1) by simp
  ultimately show ?thesis by (simp add: file_block_def scan_units_closed_form)
qed

lemma scan_file_block:
  assumes "0 \<le> mx"
    and "(if lower E (suffix E (sm_path m)) = U ''.docx''
          then scan_docx E self m query_tokens mx snippet_len
          else scan_text E self m query_tokens mx snippet_len) = Inr found"
  shows "file_block mx m found"
  using assms scan_units_block [OF assms(1) enumerate1_ascending]
  by (auto simp: scan_docx_def scan_text_def split: if_splits option.splits)

lemma scan_matches_blocks:
  "0 \<le> mx \<Longrightarrow> scan_matches E self query_tokens mx snippet_len ms positions = Inr ps \<Longrightarrow>
     \<exists>blocks. ps = positions @ concat blocks \<and> list_all2 (file_block mx) ms blocks"
proof (induction ms arbitrary: positions)
  case Nil
  then show ?case by simp
next
  case (Cons m ms)
  from Cons.prems(2) obtain found where
    found: "(if lower E (suffix E (sm_path m)) = U ''.docx''
          then scan_docx E self m query_tokens mx snippet_len
          else scan_text E self m query_tokens mx snippet_len) = Inr found"
    and rest: "scan_matches E self query_tokens mx snippet_len ms (positions @ found) = Inr ps"
    by (auto split: sum.splits)
  from Cons.IH [OF Cons.prems(1) rest] obtain blocks where
    "ps = (positions @ found) @ concat blocks" "list_all2 (file_block mx) ms blocks"
    by blast
  moreover have "file_block mx m found"
    using Cons.prems(1) found by (rule scan_file_block)
  ultimately have "ps = positions @ concat (found # blocks) \<and>
      list_all2 (file_block mx) (m # ms) (found # blocks)"
    by simp
  then show ?case by blast
qed

lemma blocks_count:
  "list_all2 (file_block mx) ms blocks \<Longrightarrow> distinct (map sm_path ms) \<Longrightarrow> 0 \<le> mx \<Longrightarrow>
     int (length (filter (\<lambda>p. sp_path p = f) (concat blocks))) \<le> (if f \<in> sm_path ` set ms then mx else 0)"
proof (induction rule: list_all2_induct)
  case Nil
  then show ?case by simp
next
  case (Cons m ms b bs)
  show ?case
  proof (cases "sm_path m = f")
    case True
    with Cons.prems have "f \<notin> sm_path ` set ms" by auto
    with Cons have "filter (\<lambda>p. sp_path p = f) (concat bs) = []"
      by (simp del: filter_concat)
    moreover have "int (length (filter (\<lambda>p. sp_path p = f) b)) \<le> mx"
    proof -
      have "length (filter (\<lambda>p. sp_path p = f) b) \<le> length b" by simp
      moreover from Cons.hyps(1) have "int (length b) \<le> mx" by (simp add: file_block_def)
      ultimately show ?thesis by linarith
    qed
    ultimately show ?thesis using True by (simp del: filter_concat)
  next
    case False
    with Cons.hyps(1) have "filter (\<lambda>p. sp_path p = f) b = []"
      by (auto simp: file_block_def list_all_iff filter_empty_conv)
    with Cons False show ?thesis by (auto simp del: filter_concat)
  qed
qed

lemma aggregate_distinct:
  "distinct (map fst best) \<Longrightarrow> distinct (map fst (foldl aggregate_step best xs))"
  by (induction xs arbitrary: best) (auto simp: distinct_update)

lemma find_sources_paths:
  "\<exists>n best. map sm_path (find_sources E self query_text top_k) = take n (map fst (sorted_desc snd best))
      \<and> distinct (map fst best)"
proof (cases "transform E (pipeline self) query_text = []")
  case True
  then have "map sm_path (find_sources E self query_text top_k) = take 0 (map fst (sorted_desc snd []))"
    by (simp add: find_sources_def)
  then show ?thesis by (metis distinct.simps(1) list.simps(8))
next
  case False
  let ?best = "aggregate_best_scores (query E (indexer self) (transform E (pipeline self) query_text) None)"
  have "map sm_path (find_sources E self query_text top_k) =
      map fst (slice_to top_k (sorted_desc snd ?best))"
    using False by (simp add: find_sources_def Let_def case_prod_unfold comp_def)
  then have "\<exists>n. map sm_path (find_sources E self query_text top_k) =
      take n (map fst (sorted_desc snd ?best))"
    by (auto simp: slice_to_def take_map)
  moreover have "distinct (map fst ?best)"
    by (simp add: aggregate_best_scores_def aggregate_distinct)
  ultimately show ?thesis by blast
qed

lemma find_sources_distinct: "distinct (map sm_path (find_sources E self query_text top_k))"
proof -
  obtain n best where eq: "map sm_path (find_sources E self query_text top_k) =
      take n (map fst (sorted_desc snd best))" and d: "distinct (map fst best)"
    using find_sources_paths by blast
  have "mset (map fst (sorted_desc snd best)) = mset (map fst best)"
    by (simp add: sorted_desc_def)
  then have "distinct (map fst (sorted_desc snd best))"
    using d by (metis mset_eq_imp_distinct_iff)
  then show ?thesis by (simp add: eq)
qed

lemma cat_finder_eq: "cat_finder = \<lparr>loader = ([[doc ''a.txt'' ''cat'']], None), pipeline = plain_pipeline,
   indexer = \<lparr>vectorizer = (\<lambda>t. t), matrix = Some [U ''cat''], doc_index = [(doc ''a.txt'' ''cat'')\<lparr>tokens := [U ''cat'']\<rparr>]\<rparr>\<rparr>"
  by (simp add: cat_finder_def world_eval text_eval index_eval files_env_def)

text \<open>
  C7, for a cap that is not negative: when \<open>locate_source_positions\<close> returns, the matches
  of \<open>find_sources\<close> have pairwise distinct paths, and the result is the concatenation, in
  the order of the matches, of one block per match; a block holds positions of its match's
  path only, with strictly ascending unit numbers, and at most \<open>max_positions_per_file\<close> of
  them.  So no file has more than \<open>max_positions_per_file\<close> positions in the result.
\<close>

theorem positions_per_file:
  "0 \<le> max_positions_per_file \<Longrightarrow>
   locate_source_positions E self query_text top_k max_positions_per_file snippet_len = Inr ps \<Longrightarrow>
     distinct (map sm_path (find_sources E self query_text top_k)) \<and>
     (\<exists>blocks. ps = concat blocks \<and>
        list_all2 (file_block max_positions_per_file) (find_sources E self query_text top_k) blocks) \<and>
     int (length (filter (\<lambda>p. sp_path p = f) ps)) \<le> max_positions_per_file"
proof (intro conjI)
  assume mx: "0 \<le> max_positions_per_file"
    and run: "locate_source_positions E self query_text top_k max_positions_per_file snippet_len = Inr ps"
  let ?ms = "find_sources E self query_text top_k"
  show d: "distinct (map sm_path ?ms)" by (rule find_sources_distinct)
  have "\<exists>blocks. ps = [] @ concat blocks \<and> list_all2 (file_block max_positions_per_file) ?ms blocks"
  proof (cases "?ms = []")
    case True
    with run have "ps = []" by (simp add: locate_source_positions_def)
    with True show ?thesis by simp
  next
    case False
    with run have "scan_matches E self (set (transform E (pipeline self) query_text))
        max_positions_per_file snippet_len ?ms [] = Inr ps"
      by (simp add: locate_source_positions_def Let_def)
    with mx show ?thesis by (rule scan_matches_blocks)
  qed
  then obtain blocks where blocks: "ps = concat blocks"
    "list_all2 (file_block max_positions_per_file) ?ms blocks" by auto
  then show "\<exists>blocks. ps = concat blocks \<and> list_all2 (file_block max_positions_per_file) ?ms blocks"
    by blast
  show "int (length (filter (\<lambda>p. sp_path p = f) ps)) \<le> max_positions_per_file"
    using blocks_count [OF blocks(2) d mx, of f] mx blocks(1) by (auto split: if_splits)
qed

theorem positions_per_file_witness:
  "locate_source_positions files_env cat_finder (U ''cat'') 5 2 200 =
     Inr [\<lparr>sp_path = U ''a.txt'', sp_index = 1, sp_snippet = U ''cat'', sp_score = 1, sp_label = ''line''\<rparr>,
          \<lparr>sp_path = U ''a.txt'', sp_index = 3, sp_snippet = U ''cat cat'', sp_score = 1, sp_label = ''line''\<rparr>] \<and>
   int (length (filter (\<lambda>p. sp_path p = U ''a.txt'')
     [\<lparr>sp_path = U ''a.txt'', sp_index = 1, sp_snippet = U ''cat'', sp_score = 1, sp_label = ''line''\<rparr>,
      \<lparr>sp_path = U ''a.txt'', sp_index = 3, sp_snippet = U ''cat cat'', sp_score = 1, sp_label = ''line''\<rparr>])) \<le> 2"
  using positions_per_file [of 2 files_env cat_finder "U ''cat''" 5 200
     "[\<lparr>sp_path = U ''a.txt'', sp_index = 1, sp_snippet = U ''cat'', sp_score = 1, sp_label = ''line''\<rparr>,
       \<lparr>sp_path = U ''a.txt'', sp_index = 3, sp_snippet = U ''cat cat'', sp_score = 1, sp_label = ''line''\<rparr>]"
     "U ''a.txt''"]
  by (simp add: cat_finder_eq world_eval text_eval index_eval finder_eval scan_eval)

text \<open>
  With the cap \<open>-1\<close> the scan of the matched file \<open>a.txt\<close> breaks at once: the file has no
  position in the result, and none is still more than the cap.
\<close>

theorem negative_cap:
  "find_sources files_env cat_finder (U ''cat'') 5 = [\<lparr>sm_path = U ''a.txt'', sm_score = 1\<rparr>] \<and>
   locate_source_positions files_env cat_finder (U ''cat'') 5 (- 1) 200 = Inr [] \<and>
   \<not> int (length (filter (\<lambda>p. sp_path p = U ''a.txt'') ([] :: ustring source_position list))) \<le> - 1"
  by (simp add: cat_finder_eq world_eval text_eval index_eval finder_eval scan_eval)

section \<open>Normalising a normalised text\<close>



















section \<open>Ranking of the matches\<close>

lemma query_scored_units: "query E self toks None = sorted_desc snd (scored_units E self toks)"
proof (cases "matrix self")
  case None
  then show ?thesis by (simp add: query_def scored_units_def sorted_desc_def)
next
  case (Some m)
  show ?thesis
  proof (cases "doc_index self = []")
    case True
    with Some show ?thesis by (simp add: query_def scored_units_def sorted_desc_def)
  next
    case False
    with Some show ?thesis by (simp add: query_def scored_units_def Let_def)
  qed
qed

lemma takeWhile_not_less: "length (takeWhile (\<lambda>u. \<not> P u) xs) < length xs \<longleftrightarrow> (\<exists>u \<in> set xs. P u)"
  by (induction xs) auto

lemma unit_pos_less: "unit_pos xs p s < length xs \<longleftrightarrow> (\<exists>u \<in> set xs. path (fst u) = p \<and> snd u = s)"
  unfolding unit_pos_def by (rule takeWhile_not_less)

lemma unit_pos_append_found:
  "unit_pos xs p s < length xs \<Longrightarrow> unit_pos (xs @ ys) p s = unit_pos xs p s"
proof -
  assume "unit_pos xs p s < length xs"
  then obtain u where "u \<in> set xs" "\<not> \<not> (path (fst u) = p \<and> snd u = s)"
    by (auto simp: unit_pos_less)
  then show ?thesis by (simp add: unit_pos_def takeWhile_append1)
qed

lemma unit_pos_append_new:
  "\<not> unit_pos xs p s < length xs \<Longrightarrow> unit_pos (xs @ [(d, s)]) (path d) s = length xs" if "p = path d" 
proof -
  assume "\<not> unit_pos xs p s < length xs"
  then have "\<forall>u \<in> set xs. \<not> (path (fst u) = path d \<and> snd u = s)"
    using that by (auto simp: unit_pos_less)
  then show ?thesis by (simp add: unit_pos_def takeWhile_append2)
qed

lemma update_new_key: "k \<notin> fst ` set al \<Longrightarrow> AList.update k v al = al @ [(k, v)]"
  by (induction al) auto

lemma best_get_key: "best_get best p \<noteq> 0 \<Longrightarrow> p \<in> fst ` set best"
  by (auto simp: best_get_def map_of_eq_None_iff split: option.splits) (metis fst_conv image_eqI map_of_SomeD)

lemma best_get_value: "p \<in> fst ` set best \<Longrightarrow> \<exists>v. (p, v) \<in> set best \<and> best_get best p = v"
proof -
  assume "p \<in> fst ` set best"
  then obtain v where "map_of best p = Some v"
    by (metis map_of_eq_None_iff not_None_eq)
  then show ?thesis by (auto simp: best_get_def dest: map_of_SomeD)
qed

lemma ranked_best_keep:
  assumes inv: "ranked_best xs best" and u: "snd u \<le> 0 \<or> path (fst u) \<in> fst ` set best"
  shows "ranked_best (xs @ [u]) best"
proof -
  from inv have found: "list_all (\<lambda>e. unit_pos xs (fst e) (snd e) < length xs) best"
    by (simp add: ranked_best_def)
  then have same: "unit_pos (xs @ [u]) (fst e) (snd e) = unit_pos xs (fst e) (snd e)"
    if "e \<in> set best" for e
    using that by (simp add: list_all_iff unit_pos_append_found)
  have "list_all (\<lambda>e. unit_pos (xs @ [u]) (fst e) (snd e) < length (xs @ [u])) best"
    using found same by (auto simp: list_all_iff intro: less_SucI)
  moreover have "list_all (\<lambda>u. snd u \<le> 0 \<or> path (fst u) \<in> fst ` set best) (xs @ [u])"
    using inv u by (simp add: ranked_best_def)
  moreover have "sorted_wrt (\<lambda>e e'. unit_pos (xs @ [u]) (fst e) (snd e) <
      unit_pos (xs @ [u]) (fst e') (snd e')) best"
  proof (rule sorted_wrt_mono_rel)
    show "sorted_wrt (\<lambda>e e'. unit_pos xs (fst e) (snd e) < unit_pos xs (fst e') (snd e')) best"
      using inv by (simp add: ranked_best_def)
  qed (simp add: same)
  moreover have "sorted_wrt (\<lambda>e e'. snd e' \<le> snd e) best"
    using inv by (simp add: ranked_best_def)
  ultimately show ?thesis by (simp only: ranked_best_def simp_thms)
qed

lemma ranked_best_new:
  assumes inv: "ranked_best xs best" and new: "path d \<notin> fst ` set best" and pos: "0 < s"
    and low: "list_all (\<lambda>u. s \<le> snd u) xs"
  shows "ranked_best (xs @ [(d, s)]) (best @ [(path d, s)])"
proof -
  from inv have found: "list_all (\<lambda>e. unit_pos xs (fst e) (snd e) < length xs) best"
    and covered: "list_all (\<lambda>u. snd u \<le> 0 \<or> path (fst u) \<in> fst ` set best) xs"
    and order: "sorted_wrt (\<lambda>e e'. unit_pos xs (fst e) (snd e) < unit_pos xs (fst e') (snd e')) best"
    and desc: "sorted_wrt (\<lambda>e e'. snd e' \<le> snd e) best"
    by (simp_all add: ranked_best_def)
  have same: "unit_pos (xs @ [(d, s)]) (fst e) (snd e) = unit_pos xs (fst e) (snd e)"
    if "e \<in> set best" for e
    using that found by (simp add: list_all_iff unit_pos_append_found)
  have "\<not> unit_pos xs (path d) s < length xs"
  proof
    assume "unit_pos xs (path d) s < length xs"
    then obtain u where "u \<in> set xs" "path (fst u) = path d" "snd u = s"
      by (auto simp: unit_pos_less)
    from covered \<open>u \<in> set xs\<close> have "snd u \<le> 0 \<or> path (fst u) \<in> fst ` set best"
      by (simp add: list_all_iff)
    with pos \<open>snd u = s\<close> \<open>path (fst u) = path d\<close> have "path d \<in> fst ` set best"
      by auto
    with new show False by contradiction
  qed
  then have last: "unit_pos (xs @ [(d, s)]) (path d) s = length xs"
    by (rule unit_pos_append_new [OF refl])
  have big: "s \<le> snd e" if "e \<in> set best" for e
  proof -
    from found that have "unit_pos xs (fst e) (snd e) < length xs" by (simp add: list_all_iff)
    then obtain u where "u \<in> set xs" "snd u = snd e" by (auto simp: unit_pos_less)
    with low show ?thesis by (auto simp: list_all_iff)
  qed
  have "list_all (\<lambda>e. unit_pos (xs @ [(d, s)]) (fst e) (snd e) < length (xs @ [(d, s)]))
      (best @ [(path d, s)])"
    using found same last by (auto simp: list_all_iff intro: less_SucI)
  moreover have "list_all (\<lambda>u. snd u \<le> 0 \<or> path (fst u) \<in> fst ` set (best @ [(path d, s)]))
      (xs @ [(d, s)])"
    using covered by (auto simp: list_all_iff)
  moreover have "sorted_wrt (\<lambda>e e'. unit_pos (xs @ [(d, s)]) (fst e) (snd e) <
      unit_pos (xs @ [(d, s)]) (fst e') (snd e')) (best @ [(path d, s)])"
  proof -
    have "sorted_wrt (\<lambda>e e'. unit_pos (xs @ [(d, s)]) (fst e) (snd e) <
      unit_pos (xs @ [(d, s)]) (fst e') (snd e')) best"
      by (rule sorted_wrt_mono_rel [OF _ order]) (simp add: same)
    moreover have "unit_pos (xs @ [(d, s)]) (fst e) (snd e) < unit_pos (xs @ [(d, s)]) (path d) s"
      if "e \<in> set best" for e
      using that found by (simp add: same last list_all_iff)
    ultimately show ?thesis by (simp add: sorted_wrt_append)
  qed
  moreover have "sorted_wrt (\<lambda>e e'. snd e' \<le> snd e) (best @ [(path d, s)])"
    using desc big by (simp add: sorted_wrt_append)
  ultimately show ?thesis by (simp only: ranked_best_def simp_thms)
qed

lemma aggregate_ranked:
  "sorted_wrt (\<lambda>a b. snd b \<le> snd a) xs \<Longrightarrow> ranked_best xs (foldl aggregate_step [] xs)"
proof (induction xs rule: rev_induct)
  case Nil
  then show ?case by (simp add: ranked_best_def)
next
  case (snoc u xs)
  obtain d s where u: "u = (d, s)" by (cases u)
  let ?best = "foldl aggregate_step [] xs"
  from snoc.prems have sorted: "sorted_wrt (\<lambda>a b. snd b \<le> snd a) xs"
    and low: "list_all (\<lambda>x. s \<le> snd x) xs"
    by (auto simp: sorted_wrt_append u list_all_iff)
  from snoc.IH [OF sorted] have inv: "ranked_best xs ?best" .
  have value_ge: "s \<le> best_get ?best (path d)" if "path d \<in> fst ` set ?best"
  proof -
    from best_get_value [OF that] obtain v where v: "(path d, v) \<in> set ?best"
      "best_get ?best (path d) = v" by blast
    with inv have "unit_pos xs (path d) v < length xs"
      by (auto simp: ranked_best_def list_all_iff)
    then obtain x where "x \<in> set xs" "snd x = v" by (auto simp: unit_pos_less)
    with low v(2) show ?thesis by (auto simp: list_all_iff)
  qed
  show ?case
  proof (cases "s \<le> 0")
    case True
    then have "foldl aggregate_step [] (xs @ [u]) = ?best" by (simp add: u)
    moreover from inv True have "ranked_best (xs @ [u]) ?best"
      by (intro ranked_best_keep) (simp_all add: u)
    ultimately show ?thesis by simp
  next
    case pos: False
    show ?thesis
    proof (cases "path d \<in> fst ` set ?best")
      case True
      with value_ge have "\<not> best_get ?best (path d) < s" by auto
      then have "foldl aggregate_step [] (xs @ [u]) = ?best" by (simp add: u)
      moreover from inv True have "ranked_best (xs @ [u]) ?best"
        by (intro ranked_best_keep) (simp_all add: u)
      ultimately show ?thesis by simp
    next
      case False
      then have "best_get ?best (path d) = 0"
        using best_get_key [of ?best "path d"] by blast
      with pos False have "foldl aggregate_step [] (xs @ [u]) = ?best @ [(path d, s)]"
        by (simp add: u update_new_key)
      moreover from inv False pos low have "ranked_best (xs @ [(d, s)]) (?best @ [(path d, s)])"
        by (intro ranked_best_new) simp_all
      ultimately show ?thesis by (simp add: u)
    qed
  qed
qed


lemma takeWhile_filter_less:
  "(\<And>x. P x \<Longrightarrow> R x) \<Longrightarrow> (\<And>x. Q x \<Longrightarrow> R x) \<Longrightarrow>
     (length (takeWhile (\<lambda>u. \<not> P u) (filter R xs)) < length (takeWhile (\<lambda>u. \<not> Q u) (filter R xs)))
       = (length (takeWhile (\<lambda>u. \<not> P u) xs) < length (takeWhile (\<lambda>u. \<not> Q u) xs))"
  by (induction xs) auto

lemma unit_pos_stable:
  "(unit_pos (sorted_desc snd xs) p s < unit_pos (sorted_desc snd xs) q s) =
     (unit_pos xs p s < unit_pos xs q s)"
proof -
  let ?R = "\<lambda>u::('a, 'b) document \<times> real. - snd u = - s"
  have stable: "filter ?R (sorted_desc snd xs) = filter ?R xs"
    unfolding sorted_desc_def by (rule sort_key_stable)
  have "(unit_pos (sorted_desc snd xs) p s < unit_pos (sorted_desc snd xs) q s) =
      (unit_pos (filter ?R (sorted_desc snd xs)) p s < unit_pos (filter ?R (sorted_desc snd xs)) q s)"
    unfolding unit_pos_def by (rule takeWhile_filter_less [symmetric]) simp_all
  also have "\<dots> = (unit_pos (filter ?R xs) p s < unit_pos (filter ?R xs) q s)"
    by (simp only: stable)
  also have "\<dots> = (unit_pos xs p s < unit_pos xs q s)"
    unfolding unit_pos_def by (rule takeWhile_filter_less) simp_all
  finally show ?thesis .
qed

lemma sorted_desc_id: "sorted_wrt (\<lambda>e e'. key e' \<le> key e) xs \<Longrightarrow> sorted_desc key xs = xs"
  unfolding sorted_desc_def by (rule sort_key_id_if_sorted) (simp add: sorted_map)

text \<open>The dictionary that \<open>find_sources\<close> cuts to \<open>top_k\<close>, in terms of the index-order units.\<close>

lemma best_scores_ranked:
  fixes units :: "(('p, 'm) document \<times> real) list"
  defines "best \<equiv> aggregate_best_scores (sorted_desc snd units)"
  shows "sorted_desc snd best = best"
    and "sorted_wrt (\<lambda>e e'. snd e' \<le> snd e) best"
    and "sorted_wrt (\<lambda>e e'. snd e = snd e' \<longrightarrow>
           unit_pos units (fst e) (snd e) < unit_pos units (fst e') (snd e')) best"
    and "list_all (\<lambda>e. unit_pos units (fst e) (snd e) < length units) best"
proof -
  have inv: "ranked_best (sorted_desc snd units) best"
    unfolding best_def aggregate_best_scores_def
    by (rule aggregate_ranked) (rule sorted_desc_descending)
  then show desc: "sorted_wrt (\<lambda>e e'. snd e' \<le> snd e) best"
    by (simp add: ranked_best_def)
  then show "sorted_desc snd best = best" by (rule sorted_desc_id)
  from inv have "sorted_wrt (\<lambda>e e'. unit_pos (sorted_desc snd units) (fst e) (snd e) <
      unit_pos (sorted_desc snd units) (fst e') (snd e')) best"
    by (simp add: ranked_best_def)
  then show "sorted_wrt (\<lambda>e e'. snd e = snd e' \<longrightarrow>
           unit_pos units (fst e) (snd e) < unit_pos units (fst e') (snd e')) best"
  proof (rule sorted_wrt_mono_rel [rotated])
    fix e e' :: "'p \<times> real"
    assume "unit_pos (sorted_desc snd units) (fst e) (snd e) <
      unit_pos (sorted_desc snd units) (fst e') (snd e')"
    then show "snd e = snd e' \<longrightarrow> unit_pos units (fst e) (snd e) < unit_pos units (fst e') (snd e')"
      using unit_pos_stable [of units "fst e" "snd e" "fst e'"] by auto
  qed
  from inv have "list_all (\<lambda>e. unit_pos (sorted_desc snd units) (fst e) (snd e) <
      length (sorted_desc snd units)) best"
    by (simp add: ranked_best_def)
  then have "\<forall>e \<in> set best. \<exists>u \<in> set (sorted_desc snd units). path (fst u) = fst e \<and> snd u = snd e"
    by (simp only: unit_pos_less list_all_iff)
  then show "list_all (\<lambda>e. unit_pos units (fst e) (snd e) < length units) best"
    by (simp add: unit_pos_less list_all_iff sorted_desc_def)
qed

lemma interleaved_finder_eq:
  "interleaved_finder =
     \<lparr>loader = ([[doc ''a.txt'' ''cat'', doc ''b.txt'' ''dog'', doc ''a.txt'' ''dog'']], None),
      pipeline = plain_pipeline,
      indexer = \<lparr>vectorizer = (\<lambda>t. t), matrix = Some [U ''cat'', U ''dog'', U ''dog''],
        doc_index = [(doc ''a.txt'' ''cat'')\<lparr>tokens := [U ''cat'']\<rparr>,
                     (doc ''b.txt'' ''dog'')\<lparr>tokens := [U ''dog'']\<rparr>,
                     (doc ''a.txt'' ''dog'')\<lparr>tokens := [U ''dog'']\<rparr>]\<rparr>\<rparr>"
  by (simp add: interleaved_finder_def world_eval text_eval index_eval)

text \<open>
  C5, with the order of ties that the code has: for \<open>top_k\<close> not negative, \<open>find_sources\<close>
  returns at most \<open>top_k\<close> matches, in descending order of score, and of two matches with
  the same score the first is the one whose path reaches that score earlier in the index,
  that is, whose first unit with that score stands before the other's (every match has
  such a unit).
\<close>

theorem find_sources_ranking:
  "0 \<le> top_k \<Longrightarrow>
     int (length (find_sources E self query_text top_k)) \<le> top_k \<and>
     sorted_wrt (\<lambda>a b. sm_score b \<le> sm_score a) (find_sources E self query_text top_k) \<and>
     sorted_wrt (\<lambda>a b. sm_score a = sm_score b \<longrightarrow>
         first_unit (scored_units E (indexer self) (transform E (pipeline self) query_text)) a <
         first_unit (scored_units E (indexer self) (transform E (pipeline self) query_text)) b)
       (find_sources E self query_text top_k) \<and>
     list_all (\<lambda>a.
         first_unit (scored_units E (indexer self) (transform E (pipeline self) query_text)) a <
         length (scored_units E (indexer self) (transform E (pipeline self) query_text)))
       (find_sources E self query_text top_k)"
proof (cases "transform E (pipeline self) query_text = []")
  case True
  assume "0 \<le> top_k"
  with True show ?thesis by (simp add: find_sources_def)
next
  case False
  assume k: "0 \<le> top_k"
  let ?units = "scored_units E (indexer self) (transform E (pipeline self) query_text)"
  let ?best = "aggregate_best_scores (sorted_desc snd ?units)"
  let ?mk = "\<lambda>e::'a \<times> real. \<lparr>sm_path = fst e, sm_score = snd e\<rparr>"
  have res: "find_sources E self query_text top_k = map ?mk (take (nat top_k) ?best)"
    using False k
    by (simp add: find_sources_def Let_def query_scored_units best_scores_ranked(1)
        slice_to_def case_prod_unfold)
  have "int (length (find_sources E self query_text top_k)) \<le> top_k"
    using k by (simp add: res)
  moreover have "sorted_wrt (\<lambda>a b. sm_score b \<le> sm_score a) (find_sources E self query_text top_k)"
    using sorted_wrt_take [OF best_scores_ranked(2) [of ?units], of "nat top_k"]
    by (simp add: res sorted_wrt_map)
  moreover have "sorted_wrt (\<lambda>a b. sm_score a = sm_score b \<longrightarrow> first_unit ?units a < first_unit ?units b)
       (find_sources E self query_text top_k)"
    using sorted_wrt_take [OF best_scores_ranked(3) [of ?units], of "nat top_k"]
    by (simp add: res sorted_wrt_map first_unit_def)
  moreover have "list_all (\<lambda>a. first_unit ?units a < length ?units)
       (find_sources E self query_text top_k)"
    using best_scores_ranked(4) [of ?units]
    by (auto simp: res list_all_iff first_unit_def dest!: in_set_takeD)
  ultimately show ?thesis by (simp only: simp_thms)
qed

theorem find_sources_ranking_witness:
  "find_sources exact_env interleaved_finder (U ''dog'') 1 = [\<lparr>sm_path = U ''b.txt'', sm_score = 1\<rparr>] \<and>
   int (length (find_sources exact_env interleaved_finder (U ''dog'') 1)) \<le> 1 \<and>
   find_sources exact_env interleaved_finder (U ''dog'') 2 =
     [\<lparr>sm_path = U ''b.txt'', sm_score = 1\<rparr>, \<lparr>sm_path = U ''a.txt'', sm_score = 1\<rparr>] \<and>
   first_unit (scored_units exact_env (indexer interleaved_finder) [U ''dog''])
     \<lparr>sm_path = U ''b.txt'', sm_score = 1\<rparr> = 1 \<and>
   first_unit (scored_units exact_env (indexer interleaved_finder) [U ''dog''])
     \<lparr>sm_path = U ''a.txt'', sm_score = 1\<rparr> = 2"
  using find_sources_ranking [of 1 exact_env interleaved_finder "U ''dog''"]
    find_sources_ranking [of 2 exact_env interleaved_finder "U ''dog''"]
  by (simp add: interleaved_finder_eq world_eval text_eval index_eval finder_eval
      scored_units_def first_unit_def unit_pos_def)

text \<open>
  The index holds a unit of \<open>a.txt\<close>, then one of \<open>b.txt\<close>, then another of \<open>a.txt\<close>; for
  the query \<open>dog\<close> both paths have the best score 1, which \<open>b.txt\<close> reaches with the second
  unit and \<open>a.txt\<close> with the third.  \<open>find_sources\<close> ranks \<open>b.txt\<close> first, although
  \<open>a.txt\<close> entered the index first.
\<close>

theorem find_sources_tie_order:
  "map path (doc_index (indexer interleaved_finder)) = [U ''a.txt'', U ''b.txt'', U ''a.txt''] \<and>
   find_sources exact_env interleaved_finder (U ''dog'') 5 =
     [\<lparr>sm_path = U ''b.txt'', sm_score = 1\<rparr>, \<lparr>sm_path = U ''a.txt'', sm_score = 1\<rparr>]"
  by (simp add: interleaved_finder_eq world_eval text_eval index_eval finder_eval)

section \<open>Aggregation over the pairs of the index\<close>

lemma best_get_update:
  "best_get (AList.update k v best) p = (if p = k then v else best_get best p)"
  by (simp add: best_get_def update_conv')

lemma best_get_entry: "distinct (map fst best) \<Longrightarrow> e \<in> set best \<Longrightarrow> best_get best (fst e) = snd e"
  by (cases e) (simp add: best_get_def)

lemma set_update_subset: "set (AList.update k v al) \<subseteq> insert (k, v) (set al)"
  by (induction al) auto

lemma aggregate_best_of: "best_of xs (foldl aggregate_step [] xs)"
proof (induction xs rule: rev_induct)
  case Nil
  then show ?case by (simp add: best_of_def)
next
  case (snoc u xs)
  obtain d s where u: "u = (d, s)" by (cases u)
  let ?best = "foldl aggregate_step [] xs"
  from snoc.IH have dist: "distinct (map fst ?best)"
    and attained: "list_all (\<lambda>e. 0 < snd e \<and> (\<exists>u \<in> set xs. path (fst u) = fst e \<and> snd u = snd e)) ?best"
    and bound: "list_all (\<lambda>u. snd u \<le> 0 \<or> snd u \<le> best_get ?best (path (fst u))) xs"
    by (simp_all add: best_of_def)
  show ?case
  proof (cases "0 < s \<and> best_get ?best (path d) < s")
    case False
    then have same: "foldl aggregate_step [] (xs @ [u]) = ?best" by (auto simp: u)
    have "list_all (\<lambda>e. 0 < snd e \<and> (\<exists>v \<in> set (xs @ [u]). path (fst v) = fst e \<and> snd v = snd e)) ?best"
      using attained by (auto simp: list_all_iff)
    moreover have "list_all (\<lambda>v. snd v \<le> 0 \<or> snd v \<le> best_get ?best (path (fst v))) (xs @ [u])"
      using bound False by (auto simp: u)
    ultimately show ?thesis using dist by (simp only: same best_of_def simp_thms)
  next
    case True
    let ?new = "AList.update (path d) s ?best"
    from True have step: "foldl aggregate_step [] (xs @ [u]) = ?new" by (simp add: u)
    have "distinct (map fst ?new)" using dist by (rule distinct_update)
    moreover have "list_all (\<lambda>e. 0 < snd e \<and> (\<exists>v \<in> set (xs @ [u]). path (fst v) = fst e \<and> snd v = snd e)) ?new"
    proof -
      have "0 < snd e \<and> (\<exists>v \<in> set (xs @ [u]). path (fst v) = fst e \<and> snd v = snd e)"
        if "e \<in> set ?new" for e
      proof -
        from that set_update_subset [of "path d" s ?best]
        have "e = (path d, s) \<or> e \<in> set ?best" by auto
        then show ?thesis
        proof
          assume "e = (path d, s)"
          with True show ?thesis by (simp add: u)
        next
          assume "e \<in> set ?best"
          with attained show ?thesis by (auto simp: list_all_iff)
        qed
      qed
      then show ?thesis by (simp add: list_all_iff)
    qed
    moreover have "list_all (\<lambda>v. snd v \<le> 0 \<or> snd v \<le> best_get ?new (path (fst v))) (xs @ [u])"
    proof -
      have "snd v \<le> 0 \<or> snd v \<le> best_get ?new (path (fst v))" if "v \<in> set xs" for v
      proof -
        from bound that have old: "snd v \<le> 0 \<or> snd v \<le> best_get ?best (path (fst v))"
          by (simp add: list_all_iff)
        show ?thesis
        proof (cases "path (fst v) = path d")
          case True
          with old \<open>0 < s \<and> best_get ?best (path d) < s\<close> show ?thesis
            by (auto simp: best_get_update)
        next
          case False
          with old show ?thesis by (simp add: best_get_update)
        qed
      qed
      then show ?thesis by (simp add: list_all_iff u best_get_update)
    qed
    ultimately show ?thesis by (simp only: step best_of_def simp_thms)
  qed
qed

text \<open>
  Relative to the pairs that \<open>query\<close> hands over, the aggregation is right: the score of a
  match is positive, it is the score of one of the units paired with the match's path, and
  no unit paired with that path has a greater one.
\<close>

lemma find_sources_best_score:
  assumes "a \<in> set (find_sources E self query_text top_k)"
  shows "0 < sm_score a \<and>
     (\<exists>u \<in> set (scored_units E (indexer self) (transform E (pipeline self) query_text)).
        path (fst u) = sm_path a \<and> snd u = sm_score a) \<and>
     (\<forall>u \<in> set (scored_units E (indexer self) (transform E (pipeline self) query_text)).
        path (fst u) = sm_path a \<longrightarrow> snd u \<le> sm_score a)"
proof -
  let ?units = "scored_units E (indexer self) (transform E (pipeline self) query_text)"
  let ?ranked = "sorted_desc snd ?units"
  let ?best = "aggregate_best_scores ?ranked"
  from assms have toks: "transform E (pipeline self) query_text \<noteq> []"
    by (auto simp: find_sources_def)
  then have "find_sources E self query_text top_k =
      map (\<lambda>e. \<lparr>sm_path = fst e, sm_score = snd e\<rparr>) (slice_to top_k (sorted_desc snd ?best))"
    by (simp add: find_sources_def Let_def query_scored_units case_prod_unfold)
  with assms obtain e where e: "e \<in> set (slice_to top_k (sorted_desc snd ?best))"
    and a: "a = \<lparr>sm_path = fst e, sm_score = snd e\<rparr>"
    by auto
  from e have "e \<in> set (sorted_desc snd ?best)"
    by (auto simp: slice_to_def dest: in_set_takeD split: if_splits)
  then have mem: "e \<in> set ?best" by (simp add: sorted_desc_def)
  have inv: "best_of ?ranked ?best"
    unfolding aggregate_best_scores_def by (rule aggregate_best_of)
  have same: "set ?ranked = set ?units" by (simp add: sorted_desc_def)
  from inv mem have "0 < snd e" and "\<exists>u \<in> set ?ranked. path (fst u) = fst e \<and> snd u = snd e"
    by (auto simp: best_of_def list_all_iff)
  moreover have "snd u \<le> snd e" if "u \<in> set ?units" "path (fst u) = fst e" for u
  proof -
    from inv have "distinct (map fst ?best)" by (simp add: best_of_def)
    then have "best_get ?best (fst e) = snd e" using mem by (rule best_get_entry)
    moreover from inv that(1) have "snd u \<le> 0 \<or> snd u \<le> best_get ?best (path (fst u))"
      by (simp add: best_of_def list_all_iff same)
    ultimately show ?thesis using that(2) \<open>0 < snd e\<close> by auto
  qed
  ultimately show ?thesis by (simp add: a same)
qed

end
